theory Spec2Isabelle
  imports Main
begin

section \<open>Data model\<close>

text \<open>
  The service keeps two tables, \<open>users\<close> and \<open>posts\<close>. A table is the list of its rows,
  oldest row first: an insert appends, an update rewrites the rows it matches where they
  stand, a delete removes the rows it matches. Python's \<open>str\<close> is \<open>string\<close>, Python's
  \<open>int\<close> is \<open>int\<close>.

  Isabelle record fields share one name space, so every field carries the initials of its
  class: \<open>u_\<close> for \<open>User\<close>, \<open>p_\<close> for \<open>Post\<close>, \<open>uc_\<close> for \<open>UserCreate\<close>, \<open>pc_\<close> for
  \<open>PostCreate\<close>, \<open>ur_\<close> for \<open>UserResponse\<close>, \<open>pr_\<close> for \<open>PostResponse\<close>.
\<close>

record User =
  u_id :: int
  u_username :: string
  u_email :: string
  u_password :: string

record Post =
  p_id :: int
  p_title :: string
  p_content :: string
  p_user_id :: int

record UserCreate =
  uc_username :: string
  uc_email :: string
  uc_password :: string

record PostCreate =
  pc_title :: string
  pc_content :: string
  pc_user_id :: int

record UserResponse =
  ur_id :: int
  ur_username :: string
  ur_email :: string

record PostResponse =
  pr_id :: int
  pr_title :: string
  pr_content :: string
  pr_user :: UserResponse

text \<open>
  The database behind a session: the two tables and the two sequences that feed the
  \<open>autoincrement\<close> primary keys. A sequence only ever grows, so a key is never issued
  twice, also after the row that had it is deleted.

  The handlers list a table with \<open>db.query(...).all()\<close>, a \<open>SELECT\<close> without \<open>ORDER BY\<close>,
  so the store decides the order of a listing: it is the order in which the rows lie in
  the table's storage. \<open>users_scan\<close> and \<open>posts_scan\<close> hold the primary keys in that
  order. An insert writes the new row at the end; an \<open>UPDATE\<close> writes the new version of
  the row at the end too, so the row is met last from then on; a delete takes the key
  out, and the place of a deleted row is not given to a later one.
\<close>

record database =
  users :: "User list"
  posts :: "Post list"
  users_id_seq :: int
  posts_id_seq :: int
  users_scan :: "int list"
  posts_scan :: "int list"

definition init_db :: database where
  "init_db = \<lparr>users = [], posts = [], users_id_seq = 1, posts_id_seq = 1,
               users_scan = [], posts_scan = []\<rparr>"

text \<open>The rows of a table in the order of a scan: for each key in turn, the row that has it.\<close>

definition scan_rows :: "('r \<Rightarrow> int) \<Rightarrow> 'r list \<Rightarrow> int list \<Rightarrow> 'r list" where
  "scan_rows key rows scan = List.map_filter (\<lambda>i. find (\<lambda>r. key r = i) rows) scan"

text \<open>
  A string with a NUL character cannot be bound to a statement: the database driver
  refuses it before anything is sent to the store.
\<close>

definition has_NUL :: "string \<Rightarrow> bool" where
  "has_NUL s \<longleftrightarrow> CHR 0x00 \<in> set s"

text \<open>
  What a request can end in besides its result: an \<open>HTTPException\<close> raised by the handler
  (status 400 is the spec's Conflict, 404 its NotFound), the failure of the response
  model when a post has no \<open>user\<close> to serialise, or an exception of the driver that no
  handler catches, which ends the request in status 500 with nothing written.
\<close>

datatype error =
  HTTPException (status_code: int) (detail: string)
| ResponseValidationError
| InternalServerError

section \<open>Response models\<close>

definition UserResponse_of :: "User \<Rightarrow> UserResponse" where
  "UserResponse_of u = \<lparr>ur_id = u_id u, ur_username = u_username u, ur_email = u_email u\<rparr>"

text \<open>
  \<open>db.query(User).filter(User.id == user_id).first()\<close>. A primary key has at most one
  row, so the order of the scan plays no part here, nor in the two uniqueness queries of
  the handlers, which are only tested for having a row.
\<close>

definition user_by_id :: "int \<Rightarrow> database \<Rightarrow> User option" where
  "user_by_id user_id db = find (\<lambda>u. u_id u = user_id) (users db)"

text \<open>\<open>db.query(Post).filter(Post.id == post_id).first()\<close>\<close>

definition post_by_id :: "int \<Rightarrow> database \<Rightarrow> Post option" where
  "post_by_id post_id db = find (\<lambda>p. p_id p = post_id) (posts db)"

text \<open>
  \<open>PostResponse\<close> reads the relationship \<open>Post.user\<close>, which loads the user row the
  foreign key names. The field is required, so a post without such a row cannot be
  serialised.
\<close>

definition PostResponse_of :: "database \<Rightarrow> Post \<Rightarrow> error + PostResponse" where
  "PostResponse_of db p =
     (case user_by_id (p_user_id p) db of
        None \<Rightarrow> Inl ResponseValidationError
      | Some u \<Rightarrow> Inr \<lparr>pr_id = p_id p, pr_title = p_title p, pr_content = p_content p,
                       pr_user = UserResponse_of u\<rparr>)"

fun PostResponse_list :: "database \<Rightarrow> Post list \<Rightarrow> error + PostResponse list" where
  "PostResponse_list db [] = Inr []"
| "PostResponse_list db (p # ps) =
     (case PostResponse_of db p of
        Inl e \<Rightarrow> Inl e
      | Inr r \<Rightarrow> (case PostResponse_list db ps of Inl e \<Rightarrow> Inl e | Inr rs \<Rightarrow> Inr (r # rs)))"

section \<open>Operations on users\<close>

text \<open>
  Every handler takes the database and returns its outcome together with the database
  it leaves behind; a handler that raises before \<open>db.commit()\<close> leaves it as it was.
\<close>

text \<open>
  \<open>create_user\<close> binds the username and the email to its uniqueness query, and all three
  fields to the \<open>INSERT\<close> that \<open>db.commit()\<close> sends.
\<close>

definition create_user :: "UserCreate \<Rightarrow> database \<Rightarrow> (error + UserResponse) \<times> database" where
  "create_user user db =
     (if has_NUL (uc_username user) \<or> has_NUL (uc_email user) then (Inl InternalServerError, db)
      else
        (case find (\<lambda>u. u_username u = uc_username user \<or> u_email u = uc_email user) (users db) of
           Some _ \<Rightarrow>
             (Inl (HTTPException 400 ''User with this username or email already exists''), db)
         | None \<Rightarrow>
             (if has_NUL (uc_password user) then (Inl InternalServerError, db)
              else
                (let db_user = \<lparr>u_id = users_id_seq db, u_username = uc_username user,
                                u_email = uc_email user, u_password = uc_password user\<rparr>
                 in (Inr (UserResponse_of db_user),
                     db\<lparr>users := users db @ [db_user], users_id_seq := users_id_seq db + 1,
                        users_scan := users_scan db @ [users_id_seq db]\<rparr>)))))"

definition get_users :: "database \<Rightarrow> UserResponse list \<times> database" where
  "get_users db = (map UserResponse_of (scan_rows u_id (users db) (users_scan db)), db)"

definition get_user :: "int \<Rightarrow> database \<Rightarrow> (error + UserResponse) \<times> database" where
  "get_user user_id db =
     (case user_by_id user_id db of
        None \<Rightarrow> (Inl (HTTPException 404 ''User not found''), db)
      | Some db_user \<Rightarrow> (Inr (UserResponse_of db_user), db))"

text \<open>
  \<open>db.delete(db_user)\<close>: the relationship \<open>User.posts\<close> has \<open>cascade="all, delete"\<close> and the
  foreign key has \<open>ondelete="CASCADE"\<close>, so the posts of the user go with the user.
\<close>

definition delete_user :: "int \<Rightarrow> database \<Rightarrow> (error + string) \<times> database" where
  "delete_user user_id db =
     (case user_by_id user_id db of
        None \<Rightarrow> (Inl (HTTPException 404 ''User not found''), db)
      | Some db_user \<Rightarrow>
          (Inr ''User deleted'',
           db\<lparr>users := filter (\<lambda>u. u_id u \<noteq> u_id db_user) (users db),
              posts := filter (\<lambda>p. p_user_id p \<noteq> u_id db_user) (posts db),
              users_scan := filter (\<lambda>i. i \<noteq> u_id db_user) (users_scan db),
              posts_scan := filter (\<lambda>i. i \<notin> set (map p_id (filter (\<lambda>p. p_user_id p = u_id db_user)
                                                                   (posts db))))
                                   (posts_scan db)\<rparr>))"

text \<open>\<open>change_user_email\<close> binds the email to its uniqueness query.\<close>

definition change_user_email ::
    "int \<Rightarrow> string \<Rightarrow> database \<Rightarrow> (error + UserResponse) \<times> database" where
  "change_user_email user_id email db =
     (case user_by_id user_id db of
        None \<Rightarrow> (Inl (HTTPException 404 ''User not found''), db)
      | Some db_user \<Rightarrow>
          (if has_NUL email then (Inl InternalServerError, db)
           else
             (case find (\<lambda>u. u_email u = email) (users db) of
                Some _ \<Rightarrow> (Inl (HTTPException 400 ''Email is already taken''), db)
              | None \<Rightarrow>
                  (Inr (UserResponse_of (db_user\<lparr>u_email := email\<rparr>)),
                   db\<lparr>users := map (\<lambda>u. if u_id u = u_id db_user then u\<lparr>u_email := email\<rparr> else u)
                                    (users db),
                      users_scan := filter (\<lambda>i. i \<noteq> u_id db_user) (users_scan db)
                                    @ [u_id db_user]\<rparr>))))"

section \<open>Operations on posts\<close>

text \<open>
  \<open>update_post_content\<close> assigns the content to the row it found. When the row already
  has that content the object is unchanged and \<open>db.commit()\<close> sends no \<open>UPDATE\<close>: nothing
  is bound and the row stays where it is in the scan. Otherwise the \<open>UPDATE\<close> binds the new
  content and the new version of the row is written at the end.
\<close>

definition update_post_content ::
    "int \<Rightarrow> string \<Rightarrow> database \<Rightarrow> (error + PostResponse) \<times> database" where
  "update_post_content post_id content db =
     (case post_by_id post_id db of
        None \<Rightarrow> (Inl (HTTPException 404 ''Post not found''), db)
      | Some db_post \<Rightarrow>
          (let db' = db\<lparr>posts := map (\<lambda>p. if p_id p = p_id db_post
                                            then p\<lparr>p_content := content\<rparr> else p) (posts db)\<rparr>
           in if p_content db_post = content
              then (PostResponse_of db' (db_post\<lparr>p_content := content\<rparr>), db')
              else if has_NUL content then (Inl InternalServerError, db)
              else (PostResponse_of db' (db_post\<lparr>p_content := content\<rparr>),
                    db'\<lparr>posts_scan := filter (\<lambda>i. i \<noteq> p_id db_post) (posts_scan db)
                                       @ [p_id db_post]\<rparr>)))"

text \<open>\<open>create_post\<close> binds the title and the content to its \<open>INSERT\<close>.\<close>

definition create_post :: "PostCreate \<Rightarrow> database \<Rightarrow> (error + PostResponse) \<times> database" where
  "create_post post db =
     (case user_by_id (pc_user_id post) db of
        None \<Rightarrow> (Inl (HTTPException 404 ''User not found''), db)
      | Some db_user \<Rightarrow>
          (if has_NUL (pc_title post) \<or> has_NUL (pc_content post) then (Inl InternalServerError, db)
           else
             (let db_post = \<lparr>p_id = posts_id_seq db, p_title = pc_title post,
                             p_content = pc_content post, p_user_id = pc_user_id post\<rparr>;
                  db' = db\<lparr>posts := posts db @ [db_post], posts_id_seq := posts_id_seq db + 1,
                           posts_scan := posts_scan db @ [posts_id_seq db]\<rparr>
              in (PostResponse_of db' db_post, db'))))"

definition get_posts :: "database \<Rightarrow> (error + PostResponse list) \<times> database" where
  "get_posts db = (PostResponse_list db (scan_rows p_id (posts db) (posts_scan db)), db)"

definition get_post :: "int \<Rightarrow> database \<Rightarrow> (error + PostResponse) \<times> database" where
  "get_post post_id db =
     (case post_by_id post_id db of
        None \<Rightarrow> (Inl (HTTPException 404 ''Post not found''), db)
      | Some db_post \<Rightarrow> (PostResponse_of db db_post, db))"

definition delete_post :: "int \<Rightarrow> database \<Rightarrow> (error + string) \<times> database" where
  "delete_post post_id db =
     (case post_by_id post_id db of
        None \<Rightarrow> (Inl (HTTPException 404 ''Post not found''), db)
      | Some db_post \<Rightarrow>
          (Inr ''Post deleted'',
           db\<lparr>posts := filter (\<lambda>p. p_id p \<noteq> p_id db_post) (posts db),
              posts_scan := filter (\<lambda>i. i \<noteq> p_id db_post) (posts_scan db)\<rparr>))"

section \<open>Reachable databases\<close>

text \<open>
  The databases the service can be in: the empty one, and whatever a request leaves
  behind.
\<close>

inductive reachable :: "database \<Rightarrow> bool" where
  r_init: "reachable init_db"
| r_create_user: "reachable db \<Longrightarrow> reachable (snd (create_user user db))"
| r_get_users: "reachable db \<Longrightarrow> reachable (snd (get_users db))"
| r_get_user: "reachable db \<Longrightarrow> reachable (snd (get_user user_id db))"
| r_delete_user: "reachable db \<Longrightarrow> reachable (snd (delete_user user_id db))"
| r_change_user_email: "reachable db \<Longrightarrow> reachable (snd (change_user_email user_id email db))"
| r_update_post_content:
    "reachable db \<Longrightarrow> reachable (snd (update_post_content post_id content db))"
| r_create_post: "reachable db \<Longrightarrow> reachable (snd (create_post post db))"
| r_get_posts: "reachable db \<Longrightarrow> reachable (snd (get_posts db))"
| r_get_post: "reachable db \<Longrightarrow> reachable (snd (get_post post_id db))"
| r_delete_post: "reachable db \<Longrightarrow> reachable (snd (delete_post post_id db))"

text \<open>The databases that are reached without any \<open>UPDATE\<close>.\<close>

inductive reachable_without_update :: "database \<Rightarrow> bool" where
  n_init: "reachable_without_update init_db"
| n_create_user:
    "reachable_without_update db \<Longrightarrow> reachable_without_update (snd (create_user user db))"
| n_get_users: "reachable_without_update db \<Longrightarrow> reachable_without_update (snd (get_users db))"
| n_get_user:
    "reachable_without_update db \<Longrightarrow> reachable_without_update (snd (get_user user_id db))"
| n_delete_user:
    "reachable_without_update db \<Longrightarrow> reachable_without_update (snd (delete_user user_id db))"
| n_create_post:
    "reachable_without_update db \<Longrightarrow> reachable_without_update (snd (create_post post db))"
| n_get_posts: "reachable_without_update db \<Longrightarrow> reachable_without_update (snd (get_posts db))"
| n_get_post:
    "reachable_without_update db \<Longrightarrow> reachable_without_update (snd (get_post post_id db))"
| n_delete_post:
    "reachable_without_update db \<Longrightarrow> reachable_without_update (snd (delete_post post_id db))"

text \<open>
  The constraints of the schema (primary keys, the two \<open>unique\<close> columns, the foreign
  key), and that every key in a table was issued by its sequence, in the order of the
  rows.
\<close>

definition valid_db :: "database \<Rightarrow> bool" where
  "valid_db db \<longleftrightarrow>
     sorted_wrt (<) (map u_id (users db)) \<and>
     sorted_wrt (<) (map p_id (posts db)) \<and>
     distinct (map u_username (users db)) \<and>
     distinct (map u_email (users db)) \<and>
     list_all (\<lambda>p. p_user_id p \<in> set (map u_id (users db))) (posts db) \<and>
     list_all (\<lambda>u. u_id u < users_id_seq db) (users db) \<and>
     list_all (\<lambda>p. p_id p < posts_id_seq db) (posts db)"

text \<open>A scan meets every row of its table, once.\<close>

definition valid_scan :: "database \<Rightarrow> bool" where
  "valid_scan db \<longleftrightarrow>
     distinct (users_scan db) \<and> set (users_scan db) = set (map u_id (users db)) \<and>
     distinct (posts_scan db) \<and> set (posts_scan db) = set (map p_id (posts db))"

text \<open>
  Two databases that differ in nothing but the passwords stored in \<open>users\<close>.
\<close>

definition same_up_to_passwords :: "database \<Rightarrow> database \<Rightarrow> bool" where
  "same_up_to_passwords db db' \<longleftrightarrow>
     map (\<lambda>u. u\<lparr>u_password := []\<rparr>) (users db) = map (\<lambda>u. u\<lparr>u_password := []\<rparr>) (users db') \<and>
     posts db = posts db' \<and>
     users_id_seq db = users_id_seq db' \<and>
     posts_id_seq db = posts_id_seq db' \<and>
     users_scan db = users_scan db' \<and>
     posts_scan db = posts_scan db'"

text \<open>
  When every post names an existing user, the table serialises, row by row: each response
  carries the fields of its row and the user the row names.
\<close>

definition response_of_row :: "database \<Rightarrow> PostResponse \<Rightarrow> Post \<Rightarrow> bool" where
  "response_of_row db r p \<longleftrightarrow>
     pr_id r = p_id p \<and> pr_title r = p_title p \<and> pr_content r = p_content p \<and>
     ur_id (pr_user r) = p_user_id p \<and>
     pr_user r \<in> set (map UserResponse_of (filter (\<lambda>u. u_id u = p_user_id p) (users db)))"

section \<open>Example databases\<close>

text \<open>The scenario of the specification: \<open>alice\<close> signs up, then writes a post.\<close>

definition alice :: UserCreate where
  "alice = \<lparr>uc_username = ''alice'', uc_email = ''a@x.com'', uc_password = ''pw1''\<rparr>"

definition first_post :: PostCreate where
  "first_post = \<lparr>pc_title = ''T'', pc_content = ''C'', pc_user_id = 1\<rparr>"

definition db_alice :: database where
  "db_alice = snd (create_user alice init_db)"

definition db_alice_post :: database where
  "db_alice_post = snd (create_post first_post db_alice)"

text \<open>
  \<open>bob\<close> signs up after \<open>alice\<close>, then \<open>alice\<close> changes email. A second post is written
  after the first, then the content of the first is changed.
\<close>

definition bob :: UserCreate where
  "bob = \<lparr>uc_username = ''bob'', uc_email = ''b@x.com'', uc_password = ''pw2''\<rparr>"

definition db_two_users :: database where
  "db_two_users = snd (create_user bob db_alice)"


definition second_post :: PostCreate where
  "second_post = \<lparr>pc_title = ''T2'', pc_content = ''C2'', pc_user_id = 1\<rparr>"

definition db_two_posts :: database where
  "db_two_posts = snd (create_post second_post db_alice_post)"

definition db_content_changed :: database where
  "db_content_changed = snd (update_post_content 1 ''new'' db_two_posts)"

section \<open>The constraints hold in every reachable database\<close>

lemma find_Some_set: "find P xs = Some x \<Longrightarrow> x \<in> set xs \<and> P x"
  by (induction xs) (auto split: if_splits)

lemma find_None_set: "find P xs = None \<longleftrightarrow> (\<forall>x\<in>set xs. \<not> P x)"
  by (induction xs) auto

lemma valid_db_iff:
  "valid_db db \<longleftrightarrow>
     sorted_wrt (<) (map u_id (users db)) \<and>
     sorted_wrt (<) (map p_id (posts db)) \<and>
     distinct (map u_username (users db)) \<and>
     distinct (map u_email (users db)) \<and>
     (\<forall>p\<in>set (posts db). p_user_id p \<in> set (map u_id (users db))) \<and>
     (\<forall>u\<in>set (users db). u_id u < users_id_seq db) \<and>
     (\<forall>p\<in>set (posts db). p_id p < posts_id_seq db)"
  by (simp add: valid_db_def list_all_iff)

lemma valid_db_init: "valid_db init_db"
  by (simp add: valid_db_def init_db_def)

lemma valid_db_create_user: "valid_db db \<Longrightarrow> valid_db (snd (create_user user db))"
  by (auto simp: valid_db_iff create_user_def Let_def sorted_wrt_append
      find_None_set split: option.splits)

lemma sorted_ids_filter: "sorted_wrt (<) (map f xs) \<Longrightarrow> sorted_wrt (<) (map f (filter P xs))"
  by (induction xs) auto

lemma valid_db_delete_user: "valid_db db \<Longrightarrow> valid_db (snd (delete_user user_id db))"
  unfolding valid_db_iff delete_user_def
  by (auto simp: sorted_ids_filter distinct_map_filter split: option.splits)

lemma map_upd_id: "map u_id (map (\<lambda>u. if u_id u = i then u\<lparr>u_email := e\<rparr> else u) xs) = map u_id xs"
  by (induction xs) auto

lemma map_upd_username:
  "map u_username (map (\<lambda>u. if u_id u = i then u\<lparr>u_email := e\<rparr> else u) xs) = map u_username xs"
  by (induction xs) auto

lemma distinct_upd_email:
  "\<forall>u\<in>set xs. u_email u \<noteq> e \<Longrightarrow> distinct (map u_id xs) \<Longrightarrow> distinct (map u_email xs) \<Longrightarrow>
   distinct (map u_email (map (\<lambda>u. if u_id u = i then u\<lparr>u_email := e\<rparr> else u) xs))"
  by (induction xs) (auto simp: image_iff)

lemma ball_upd_id:
  "(\<forall>u\<in>set (map (\<lambda>u. if u_id u = i then u\<lparr>u_email := e\<rparr> else u) xs). u_id u < n)
     \<longleftrightarrow> (\<forall>u\<in>set xs. u_id u < n)"
  by (induction xs) auto

lemma valid_db_change_user_email:
  "valid_db db \<Longrightarrow> valid_db (snd (change_user_email user_id email db))"
proof -
  assume v: "valid_db db"
  have d: "distinct (map u_id (users db))"
    using v by (simp add: valid_db_iff strict_sorted_iff)
  show ?thesis
    using v d unfolding valid_db_iff change_user_email_def
    by (simp add: map_upd_id map_upd_username distinct_upd_email find_None_set ball_upd_id
        del: map_map set_map split: option.splits)
qed

lemma map_updc_id: "map p_id (map (\<lambda>p. if p_id p = i then p\<lparr>p_content := c\<rparr> else p) xs) = map p_id xs"
  by (induction xs) auto

lemma ball_updc:
  "(\<forall>p\<in>set (map (\<lambda>p. if p_id p = i then p\<lparr>p_content := c\<rparr> else p) xs). P (p_id p) (p_user_id p))
     \<longleftrightarrow> (\<forall>p\<in>set xs. P (p_id p) (p_user_id p))"
  by (induction xs) auto

lemma valid_db_update_post_content:
  "valid_db db \<Longrightarrow> valid_db (snd (update_post_content post_id content db))"
  unfolding valid_db_iff update_post_content_def
  using ball_updc[of _ _ "posts db" "\<lambda>i j. j \<in> set (map u_id (users db))"]
        ball_updc[of _ _ "posts db" "\<lambda>i j. i < posts_id_seq db"]
  by (simp add: map_updc_id Let_def del: map_map set_map split: option.splits)

lemma valid_db_create_post: "valid_db db \<Longrightarrow> valid_db (snd (create_post post db))"
  unfolding valid_db_iff create_post_def user_by_id_def
  by (auto simp: Let_def sorted_wrt_append intro: rev_image_eqI dest!: find_Some_set
      split: option.splits)

lemma valid_db_delete_post: "valid_db db \<Longrightarrow> valid_db (snd (delete_post post_id db))"
  unfolding valid_db_iff delete_post_def
  by (auto simp: sorted_ids_filter split: option.splits)

lemma reachable_valid_db: "reachable db \<Longrightarrow> valid_db db"
proof (induction rule: reachable.induct)
  case r_init show ?case by (rule valid_db_init)
next
  case (r_create_user db user) then show ?case by (simp add: valid_db_create_user)
next
  case (r_get_users db) then show ?case by (simp add: get_users_def)
next
  case (r_get_user db user_id) then show ?case by (simp add: get_user_def split: option.splits)
next
  case (r_delete_user db user_id) then show ?case by (simp add: valid_db_delete_user)
next
  case (r_change_user_email db user_id email) then show ?case by (simp add: valid_db_change_user_email)
next
  case (r_update_post_content db post_id content) then show ?case by (simp add: valid_db_update_post_content)
next
  case (r_create_post db post) then show ?case by (simp add: valid_db_create_post)
next
  case (r_get_posts db) then show ?case by (simp add: get_posts_def)
next
  case (r_get_post db post_id) then show ?case by (simp add: get_post_def split: option.splits)
next
  case (r_delete_post db post_id) then show ?case by (simp add: valid_db_delete_post)
qed

section \<open>A scan meets every row once\<close>

lemma find_by_key:
  "distinct (map key rows) \<Longrightarrow> r \<in> set rows \<Longrightarrow> find (\<lambda>x. key x = key r) rows = Some r"
proof (induction rows)
  case Nil
  then show ?case by simp
next
  case (Cons a rows)
  show ?case
  proof (cases "a = r")
    case True
    then show ?thesis by simp
  next
    case False
    with Cons.prems have "r \<in> set rows" and "key a \<noteq> key r"
      by (auto simp: image_iff)
    with Cons show ?thesis by simp
  qed
qed

lemma scan_rows_Nil: "scan_rows key rows [] = []"
  by (simp add: scan_rows_def map_filter_simps)

lemma scan_rows_Cons:
  "scan_rows key rows (i # scan) =
     (case find (\<lambda>r. key r = i) rows of
        None \<Rightarrow> scan_rows key rows scan
      | Some r \<Rightarrow> r # scan_rows key rows scan)"
  unfolding scan_rows_def by (simp add: map_filter_simps)




text \<open>
  When the scan holds keys of the table only, each once, it is a scan of some
  arrangement of the rows.
\<close>

lemma scan_rows_arrangement:
  "distinct (map key rows) \<Longrightarrow> set scan \<subseteq> set (map key rows) \<Longrightarrow>
   \<exists>xs. set xs \<subseteq> set rows \<and> map key xs = scan \<and> scan_rows key rows scan = xs"
proof (induction scan)
  case Nil
  then show ?case by (simp add: scan_rows_Nil)
next
  case (Cons i scan)
  then obtain xs where xs: "set xs \<subseteq> set rows" "map key xs = scan" "scan_rows key rows scan = xs"
    by auto
  from Cons.prems obtain r where r: "r \<in> set rows" "key r = i"
    by auto
  with Cons.prems have "find (\<lambda>x. key x = i) rows = Some r"
    using find_by_key [of key rows r] by simp
  with xs r have "set (r # xs) \<subseteq> set rows \<and> map key (r # xs) = i # scan \<and>
                  scan_rows key rows (i # scan) = r # xs"
    by (simp add: scan_rows_Cons)
  then show ?case by (rule exI)
qed

lemma scan_rows_keys:
  "distinct (map key rows) \<Longrightarrow> set scan \<subseteq> set (map key rows) \<Longrightarrow>
   map key (scan_rows key rows scan) = scan"
proof -
  assume "distinct (map key rows)" and "set scan \<subseteq> set (map key rows)"
  from scan_rows_arrangement [OF this] obtain xs where
    "map key xs = scan" "scan_rows key rows scan = xs" by blast
  then show ?thesis by simp
qed

lemma scan_rows_subset:
  "distinct (map key rows) \<Longrightarrow> set scan \<subseteq> set (map key rows) \<Longrightarrow>
   set (scan_rows key rows scan) \<subseteq> set rows"
proof -
  assume "distinct (map key rows)" and "set scan \<subseteq> set (map key rows)"
  from scan_rows_arrangement [OF this] obtain xs where
    "set xs \<subseteq> set rows" "scan_rows key rows scan = xs" by blast
  then show ?thesis by simp
qed

lemma scan_rows_set:
  assumes "distinct (map key rows)" and "set scan = set (map key rows)"
  shows "set (scan_rows key rows scan) = set rows"
proof
  show "set (scan_rows key rows scan) \<subseteq> set rows"
    using assms by (simp add: scan_rows_subset)
  show "set rows \<subseteq> set (scan_rows key rows scan)"
  proof
    fix r assume r: "r \<in> set rows"
    then have "key r \<in> set (map key (scan_rows key rows scan))"
      using assms by (simp add: scan_rows_keys)
    then obtain x where x: "x \<in> set (scan_rows key rows scan)" "key x = key r"
      by auto
    with assms have "x \<in> set rows"
      using scan_rows_subset [of key rows scan] by auto
    with x r assms(1) have "x = r"
      by (simp add: inj_on_def distinct_map)
    with x show "r \<in> set (scan_rows key rows scan)" by simp
  qed
qed

lemma scan_rows_length:
  assumes "distinct (map key rows)" and "distinct scan" and "set scan = set (map key rows)"
  shows "length (scan_rows key rows scan) = length rows"
proof -
  have "length (scan_rows key rows scan) = length (map key (scan_rows key rows scan))"
    by simp
  also have "\<dots> = length scan"
    using assms by (simp only: scan_rows_keys [of key rows scan] subset_refl)
  also have "\<dots> = card (set scan)"
    using assms(2) by (simp add: distinct_card)
  also have "\<dots> = card (set (map key rows))"
    using assms(3) by simp
  also have "\<dots> = length (map key rows)"
    using assms(1) by (rule distinct_card)
  finally show ?thesis by simp
qed

section \<open>The scan order in reachable databases\<close>

lemma user_by_id_Some: "user_by_id i db = Some u \<Longrightarrow> u \<in> set (users db) \<and> u_id u = i"
  unfolding user_by_id_def by (rule find_Some_set)

lemma post_by_id_Some: "post_by_id i db = Some p \<Longrightarrow> p \<in> set (posts db) \<and> p_id p = i"
  unfolding post_by_id_def by (rule find_Some_set)

lemma valid_db_distinct:
  "valid_db db \<Longrightarrow> distinct (map u_id (users db)) \<and> distinct (map p_id (posts db))"
  by (simp add: valid_db_def strict_sorted_iff)

lemma valid_scan_init: "valid_scan init_db"
  by (simp add: valid_scan_def init_db_def)

lemma moved_last:
  "distinct scan \<Longrightarrow> i \<in> set scan \<Longrightarrow>
   distinct (filter (\<lambda>j. j \<noteq> i) scan @ [i]) \<and> set (filter (\<lambda>j. j \<noteq> i) scan @ [i]) = set scan"
  by auto

lemma taken_out:
  "distinct (map key rows) \<Longrightarrow> distinct scan \<Longrightarrow> set scan = set (map key rows) \<Longrightarrow>
   distinct (filter (\<lambda>j. j \<noteq> i) scan) \<and>
   set (filter (\<lambda>j. j \<noteq> i) scan) = set (map key (filter (\<lambda>r. key r \<noteq> i) rows))"
  by auto

lemma owned_taken_out:
  assumes "distinct (map p_id rows)" and "distinct scan" and "set scan = set (map p_id rows)"
  shows "distinct (filter (\<lambda>j. j \<notin> set (map p_id (filter (\<lambda>p. p_user_id p = i) rows))) scan) \<and>
         set (filter (\<lambda>j. j \<notin> set (map p_id (filter (\<lambda>p. p_user_id p = i) rows))) scan)
           = set (map p_id (filter (\<lambda>p. p_user_id p \<noteq> i) rows))"
proof (intro conjI equalityI subsetI)
  let ?D = "set (map p_id (filter (\<lambda>p. p_user_id p = i) rows))"
  have owned: "p_id p \<in> ?D \<longleftrightarrow> p_user_id p = i" if "p \<in> set rows" for p
  proof
    assume "p_id p \<in> ?D"
    then obtain q where q: "q \<in> set rows" "p_user_id q = i" "p_id q = p_id p"
      by auto
    with that assms(1) have "q = p"
      by (simp add: distinct_map inj_on_def)
    with q show "p_user_id p = i" by simp
  next
    assume "p_user_id p = i"
    with that show "p_id p \<in> ?D" by simp
  qed
  show "distinct (filter (\<lambda>j. j \<notin> ?D) scan)"
    using assms(2) by simp
  {
    fix j assume "j \<in> set (filter (\<lambda>j. j \<notin> ?D) scan)"
    then have j: "j \<in> set scan" "j \<notin> ?D" by simp_all
    with assms(3) obtain p where p: "p \<in> set rows" "p_id p = j" by auto
    with j owned [of p] have "p_user_id p \<noteq> i" by blast
    with p show "j \<in> set (map p_id (filter (\<lambda>p. p_user_id p \<noteq> i) rows))" by force
  }
  {
    fix j assume "j \<in> set (map p_id (filter (\<lambda>p. p_user_id p \<noteq> i) rows))"
    then obtain p where p: "p \<in> set rows" "p_user_id p \<noteq> i" "p_id p = j" by auto
    with owned [of p] have "j \<notin> ?D" by blast
    moreover from p assms(3) have "j \<in> set scan" by auto
    ultimately show "j \<in> set (filter (\<lambda>j. j \<notin> ?D) scan)" by simp
  }
qed

lemma create_user_cases:
  "snd (create_user user db) = db \<or>
   snd (create_user user db) =
     db\<lparr>users := users db @ [\<lparr>u_id = users_id_seq db, u_username = uc_username user,
                                u_email = uc_email user, u_password = uc_password user\<rparr>],
        users_id_seq := users_id_seq db + 1,
        users_scan := users_scan db @ [users_id_seq db]\<rparr>"
  by (simp add: create_user_def Let_def split: option.splits)

lemma create_post_cases:
  "snd (create_post post db) = db \<or>
   snd (create_post post db) =
     db\<lparr>posts := posts db @ [\<lparr>p_id = posts_id_seq db, p_title = pc_title post,
                                p_content = pc_content post, p_user_id = pc_user_id post\<rparr>],
        posts_id_seq := posts_id_seq db + 1,
        posts_scan := posts_scan db @ [posts_id_seq db]\<rparr>"
  by (simp add: create_post_def Let_def split: option.splits)

lemma next_key_unused:
  "valid_db db \<Longrightarrow>
   users_id_seq db \<notin> set (map u_id (users db)) \<and> posts_id_seq db \<notin> set (map p_id (posts db))"
proof -
  assume v: "valid_db db"
  have unused: "i \<notin> set (map f xs)" if "list_all (\<lambda>x. f x < i) xs"
    for f :: "'a \<Rightarrow> int" and xs i
    using that by (induction xs) auto
  from v have "list_all (\<lambda>u. u_id u < users_id_seq db) (users db)"
    and "list_all (\<lambda>p. p_id p < posts_id_seq db) (posts db)"
    by (simp_all add: valid_db_def)
  then show ?thesis
    by (intro conjI unused)
qed

lemma valid_scan_create_user:
  assumes "valid_db db" and "valid_scan db"
  shows "valid_scan (snd (create_user user db))"
proof -
  from next_key_unused [OF assms(1)] assms(2)
  have "valid_scan (db\<lparr>users := users db @ [\<lparr>u_id = users_id_seq db, u_username = uc_username user,
                                u_email = uc_email user, u_password = uc_password user\<rparr>],
        users_id_seq := users_id_seq db + 1,
        users_scan := users_scan db @ [users_id_seq db]\<rparr>)"
    by (simp add: valid_scan_def)
  with assms(2) create_user_cases [of user db] show ?thesis
    by (elim disjE) simp_all
qed

lemma valid_scan_create_post:
  assumes "valid_db db" and "valid_scan db"
  shows "valid_scan (snd (create_post post db))"
proof -
  from next_key_unused [OF assms(1)] assms(2)
  have "valid_scan (db\<lparr>posts := posts db @ [\<lparr>p_id = posts_id_seq db, p_title = pc_title post,
                                p_content = pc_content post, p_user_id = pc_user_id post\<rparr>],
        posts_id_seq := posts_id_seq db + 1,
        posts_scan := posts_scan db @ [posts_id_seq db]\<rparr>)"
    by (simp add: valid_scan_def)
  with assms(2) create_post_cases [of post db] show ?thesis
    by (elim disjE) simp_all
qed

lemma valid_scan_delete_post:
  assumes "valid_db db" and "valid_scan db"
  shows "valid_scan (snd (delete_post post_id db))"
proof (cases "post_by_id post_id db")
  case None
  with assms show ?thesis by (simp add: delete_post_def)
next
  case (Some p)
  from assms have "distinct (map p_id (posts db))" "distinct (posts_scan db)"
    "set (posts_scan db) = set (map p_id (posts db))"
    by (simp_all add: valid_db_distinct valid_scan_def)
  from taken_out [OF this, of "p_id p"] assms(2) Some show ?thesis
    by (simp add: delete_post_def valid_scan_def)
qed

lemma valid_scan_delete_user:
  assumes "valid_db db" and "valid_scan db"
  shows "valid_scan (snd (delete_user user_id db))"
proof (cases "user_by_id user_id db")
  case None
  with assms show ?thesis by (simp add: delete_user_def)
next
  case (Some u)
  from assms have u: "distinct (map u_id (users db))" "distinct (users_scan db)"
    "set (users_scan db) = set (map u_id (users db))"
    and p: "distinct (map p_id (posts db))" "distinct (posts_scan db)"
    "set (posts_scan db) = set (map p_id (posts db))"
    by (simp_all add: valid_db_distinct valid_scan_def)
  from taken_out [OF u, of "u_id u"] owned_taken_out [OF p, of "u_id u"] Some show ?thesis
    by (simp add: delete_user_def valid_scan_def)
qed

lemma valid_scan_change_user_email:
  assumes "valid_scan db"
  shows "valid_scan (snd (change_user_email user_id email db))"
proof (cases "user_by_id user_id db")
  case None
  with assms show ?thesis by (simp add: change_user_email_def)
next
  case (Some u)
  from user_by_id_Some [OF Some] have "u_id u \<in> set (map u_id (users db))"
    by (auto simp: image_iff)
  with assms have "u_id u \<in> set (users_scan db)"
    by (simp add: valid_scan_def del: set_map)
  with assms have "distinct (filter (\<lambda>j. j \<noteq> u_id u) (users_scan db) @ [u_id u]) \<and>
        set (filter (\<lambda>j. j \<noteq> u_id u) (users_scan db) @ [u_id u]) = set (users_scan db)"
    using moved_last [of "users_scan db" "u_id u"] by (simp add: valid_scan_def)
  with assms Some show ?thesis
    by (simp add: change_user_email_def valid_scan_def map_upd_id del: map_map set_map set_append
        split: option.splits)
qed

lemma valid_scan_update_post_content:
  assumes "valid_scan db"
  shows "valid_scan (snd (update_post_content post_id content db))"
proof (cases "post_by_id post_id db")
  case None
  with assms show ?thesis by (simp add: update_post_content_def)
next
  case (Some p)
  from post_by_id_Some [OF Some] have "p_id p \<in> set (map p_id (posts db))"
    by (auto simp: image_iff)
  with assms have "p_id p \<in> set (posts_scan db)"
    by (simp add: valid_scan_def del: set_map)
  with assms have "distinct (filter (\<lambda>j. j \<noteq> p_id p) (posts_scan db) @ [p_id p]) \<and>
        set (filter (\<lambda>j. j \<noteq> p_id p) (posts_scan db) @ [p_id p]) = set (posts_scan db)"
    using moved_last [of "posts_scan db" "p_id p"] by (simp add: valid_scan_def)
  with assms Some show ?thesis
    by (simp add: update_post_content_def valid_scan_def map_updc_id Let_def
        del: map_map set_map set_append)
qed

lemma reachable_valid_scan: "reachable db \<Longrightarrow> valid_scan db"
proof (induction rule: reachable.induct)
  case r_init
  show ?case by (rule valid_scan_init)
next
  case (r_create_user db user)
  then show ?case by (simp add: valid_scan_create_user reachable_valid_db)
next
  case (r_get_users db)
  then show ?case by (simp add: get_users_def)
next
  case (r_get_user db user_id)
  then show ?case by (simp add: get_user_def split: option.splits)
next
  case (r_delete_user db user_id)
  then show ?case by (simp add: valid_scan_delete_user reachable_valid_db)
next
  case (r_change_user_email db user_id email)
  then show ?case by (simp add: valid_scan_change_user_email)
next
  case (r_update_post_content db post_id content)
  then show ?case by (simp add: valid_scan_update_post_content)
next
  case (r_create_post db post)
  then show ?case by (simp add: valid_scan_create_post reachable_valid_db)
next
  case (r_get_posts db)
  then show ?case by (simp add: get_posts_def)
next
  case (r_get_post db post_id)
  then show ?case by (simp add: get_post_def split: option.splits)
next
  case (r_delete_post db post_id)
  then show ?case by (simp add: valid_scan_delete_post reachable_valid_db)
qed

section \<open>Without an update the scan is in insertion order\<close>







section \<open>The example databases, evaluated\<close>

lemma db_alice_eq:
  "db_alice = \<lparr>users = [\<lparr>u_id = 1, u_username = ''alice'', u_email = ''a@x.com'', u_password = ''pw1''\<rparr>],
       posts = [], users_id_seq = 2, posts_id_seq = 1, users_scan = [1], posts_scan = []\<rparr>"
  by (simp add: db_alice_def alice_def create_user_def init_db_def Let_def has_NUL_def)

lemma db_alice_post_eq:
  "db_alice_post = \<lparr>users = [\<lparr>u_id = 1, u_username = ''alice'', u_email = ''a@x.com'', u_password = ''pw1''\<rparr>],
       posts = [\<lparr>p_id = 1, p_title = ''T'', p_content = ''C'', p_user_id = 1\<rparr>],
       users_id_seq = 2, posts_id_seq = 2, users_scan = [1], posts_scan = [1]\<rparr>"
  by (simp add: db_alice_post_def db_alice_eq first_post_def create_post_def user_by_id_def Let_def
      has_NUL_def)



lemma db_two_posts_eq:
  "db_two_posts = \<lparr>users = [\<lparr>u_id = 1, u_username = ''alice'', u_email = ''a@x.com'', u_password = ''pw1''\<rparr>],
       posts = [\<lparr>p_id = 1, p_title = ''T'', p_content = ''C'', p_user_id = 1\<rparr>,
                \<lparr>p_id = 2, p_title = ''T2'', p_content = ''C2'', p_user_id = 1\<rparr>],
       users_id_seq = 2, posts_id_seq = 3, users_scan = [1], posts_scan = [1, 2]\<rparr>"
  by (simp add: db_two_posts_def db_alice_post_eq second_post_def create_post_def user_by_id_def
      Let_def has_NUL_def)

lemma db_content_changed_eq:
  "db_content_changed = \<lparr>users = [\<lparr>u_id = 1, u_username = ''alice'', u_email = ''a@x.com'', u_password = ''pw1''\<rparr>],
       posts = [\<lparr>p_id = 1, p_title = ''T'', p_content = ''new'', p_user_id = 1\<rparr>,
                \<lparr>p_id = 2, p_title = ''T2'', p_content = ''C2'', p_user_id = 1\<rparr>],
       users_id_seq = 2, posts_id_seq = 3, users_scan = [1], posts_scan = [2, 1]\<rparr>"
  by (simp add: db_content_changed_def db_two_posts_eq update_post_content_def post_by_id_def
      Let_def has_NUL_def)

lemma reachable_db_alice: "reachable db_alice"
  unfolding db_alice_def by (rule r_create_user [OF r_init])

lemma reachable_db_alice_post: "reachable db_alice_post"
  unfolding db_alice_post_def by (rule r_create_post [OF reachable_db_alice])



lemma reachable_db_two_posts: "reachable db_two_posts"
  unfolding db_two_posts_def by (rule r_create_post [OF reachable_db_alice_post])



lemma no_update_db_two_users: "reachable_without_update db_two_users"
  unfolding db_two_users_def db_alice_def by (rule n_create_user [OF n_create_user [OF n_init]])

section \<open>Lookups after an update\<close>

lemma find_map_same:
  "(\<And>x. P (f x) = P x) \<Longrightarrow> find P (map f xs) = map_option f (find P xs)"
  by (induction xs) auto

lemma set_content_twice:
  "map (\<lambda>p. if p_id p = i then p\<lparr>p_content := c\<rparr> else p)
     (map (\<lambda>p. if p_id p = i then p\<lparr>p_content := c\<rparr> else p) xs)
   = map (\<lambda>p. if p_id p = i then p\<lparr>p_content := c\<rparr> else p) xs"
  by (induction xs) auto

lemma content_after_update:
  "list_all (\<lambda>q. p_id q = i \<longrightarrow> p_content q = c)
     (map (\<lambda>q. if p_id q = i then q\<lparr>p_content := c\<rparr> else q) xs)"
  by (induction xs) simp_all

lemma find_after_update:
  "find (\<lambda>p. p_id p = i) (map (\<lambda>p. if p_id p = i then p\<lparr>p_content := c\<rparr> else p) xs)
   = map_option (\<lambda>p. p\<lparr>p_content := c\<rparr>) (find (\<lambda>p. p_id p = i) xs)"
proof -
  have "find (\<lambda>p. p_id p = i) (map (\<lambda>p. if p_id p = i then p\<lparr>p_content := c\<rparr> else p) xs)
        = map_option (\<lambda>p. if p_id p = i then p\<lparr>p_content := c\<rparr> else p) (find (\<lambda>p. p_id p = i) xs)"
    by (rule find_map_same) simp
  then show ?thesis
    by (cases "find (\<lambda>p. p_id p = i) xs") (auto dest: find_Some_set)
qed

lemma PostResponse_of_posts: "PostResponse_of (db\<lparr>posts := ps\<rparr>) p = PostResponse_of db p"
  by (simp add: PostResponse_of_def user_by_id_def)

lemma PostResponse_of_users: "users db' = users db \<Longrightarrow> PostResponse_of db' p = PostResponse_of db p"
  by (simp add: PostResponse_of_def user_by_id_def)

lemma PostResponse_of_valid:
  "p_user_id p \<in> set (map u_id (users db)) \<Longrightarrow>
   \<exists>u\<in>set (users db). u_id u = p_user_id p \<and>
     PostResponse_of db p = Inr \<lparr>pr_id = p_id p, pr_title = p_title p, pr_content = p_content p,
                                 pr_user = UserResponse_of u\<rparr>"
proof -
  assume "p_user_id p \<in> set (map u_id (users db))"
  then have "user_by_id (p_user_id p) db \<noteq> None"
    by (auto simp: user_by_id_def find_None_set)
  then obtain u where u: "user_by_id (p_user_id p) db = Some u" by auto
  with user_by_id_Some [OF u] show ?thesis
    by (auto simp: PostResponse_of_def)
qed

section \<open>Responses do not read the password\<close>

lemma erased_password_eq:
  "u\<lparr>u_password := []\<rparr> = v\<lparr>u_password := []\<rparr> \<Longrightarrow>
   u_id u = u_id v \<and> UserResponse_of u = UserResponse_of v"
  by (cases u, cases v) (simp add: UserResponse_of_def)

lemma find_user_erased:
  "map (\<lambda>u. u\<lparr>u_password := []\<rparr>) xs = map (\<lambda>u. u\<lparr>u_password := []\<rparr>) ys \<Longrightarrow>
   map_option UserResponse_of (find (\<lambda>u. u_id u = i) xs)
     = map_option UserResponse_of (find (\<lambda>u. u_id u = i) ys)"
proof (induction xs arbitrary: ys)
  case Nil
  then show ?case by simp
next
  case (Cons x xs)
  then obtain y ys' where ys: "ys = y # ys'" by (cases ys) auto
  with Cons.prems have hd: "x\<lparr>u_password := []\<rparr> = y\<lparr>u_password := []\<rparr>"
    and tl: "map (\<lambda>u. u\<lparr>u_password := []\<rparr>) xs = map (\<lambda>u. u\<lparr>u_password := []\<rparr>) ys'"
    by simp_all
  from erased_password_eq [OF hd] Cons.IH [OF tl] show ?case
    by (simp add: ys)
qed

lemma responses_erased:
  "map (\<lambda>u. u\<lparr>u_password := []\<rparr>) xs = map (\<lambda>u. u\<lparr>u_password := []\<rparr>) ys \<Longrightarrow>
   map UserResponse_of xs = map UserResponse_of ys"
proof (induction xs arbitrary: ys)
  case Nil
  then show ?case by simp
next
  case (Cons x xs)
  then obtain y ys' where ys: "ys = y # ys'" by (cases ys) auto
  with Cons.prems have hd: "x\<lparr>u_password := []\<rparr> = y\<lparr>u_password := []\<rparr>"
    and tl: "map (\<lambda>u. u\<lparr>u_password := []\<rparr>) xs = map (\<lambda>u. u\<lparr>u_password := []\<rparr>) ys'"
    by simp_all
  from erased_password_eq [OF hd] Cons.IH [OF tl] show ?case
    by (simp add: ys)
qed

lemma scan_erased:
  assumes "map (\<lambda>u. u\<lparr>u_password := []\<rparr>) xs = map (\<lambda>u. u\<lparr>u_password := []\<rparr>) ys"
  shows "map UserResponse_of (scan_rows u_id xs scan) = map UserResponse_of (scan_rows u_id ys scan)"
proof (induction scan)
  case Nil
  show ?case by (simp add: scan_rows_Nil)
next
  case (Cons i scan)
  from find_user_erased [OF assms, of i] Cons show ?case
    by (cases "find (\<lambda>u. u_id u = i) xs"; cases "find (\<lambda>u. u_id u = i) ys")
       (simp_all add: scan_rows_Cons)
qed

lemma get_user_by_response:
  "fst (get_user i db) =
     (case map_option UserResponse_of (user_by_id i db) of
        None \<Rightarrow> Inl (HTTPException 404 ''User not found'') | Some r \<Rightarrow> Inr r)"
  by (simp add: get_user_def split: option.splits)

lemma PostResponse_of_by_response:
  "PostResponse_of db p =
     (case map_option UserResponse_of (user_by_id (p_user_id p) db) of
        None \<Rightarrow> Inl ResponseValidationError
      | Some r \<Rightarrow> Inr \<lparr>pr_id = p_id p, pr_title = p_title p, pr_content = p_content p,
                       pr_user = r\<rparr>)"
  by (simp add: PostResponse_of_def split: option.splits)

lemma user_by_id_erased:
  "same_up_to_passwords db db' \<Longrightarrow>
   map_option UserResponse_of (user_by_id i db) = map_option UserResponse_of (user_by_id i db')"
  unfolding same_up_to_passwords_def user_by_id_def
  by (rule find_user_erased) simp

lemma PostResponse_of_erased:
  "same_up_to_passwords db db' \<Longrightarrow> PostResponse_of db p = PostResponse_of db' p"
  by (simp only: PostResponse_of_by_response user_by_id_erased)

lemma PostResponse_list_erased:
  "same_up_to_passwords db db' \<Longrightarrow> PostResponse_list db ps = PostResponse_list db' ps"
  by (induction ps) (simp_all add: PostResponse_of_erased split: sum.splits)

section \<open>Reading back what was just written\<close>







lemma create_post_new:
  "user_by_id (pc_user_id post) db = Some u \<Longrightarrow>
   \<not> has_NUL (pc_title post) \<Longrightarrow> \<not> has_NUL (pc_content post) \<Longrightarrow>
   create_post post db =
     (Inr \<lparr>pr_id = posts_id_seq db, pr_title = pc_title post, pr_content = pc_content post,
           pr_user = UserResponse_of u\<rparr>,
      db\<lparr>posts := posts db @ [\<lparr>p_id = posts_id_seq db, p_title = pc_title post,
                                 p_content = pc_content post, p_user_id = pc_user_id post\<rparr>],
         posts_id_seq := posts_id_seq db + 1,
         posts_scan := posts_scan db @ [posts_id_seq db]\<rparr>)"
  by (simp add: create_post_def Let_def PostResponse_of_def user_by_id_def)


lemma user_by_id_exists:
  "\<exists>u\<in>set (users db). u_id u = i \<Longrightarrow> \<exists>u. user_by_id i db = Some u"
proof -
  assume "\<exists>u\<in>set (users db). u_id u = i"
  then have "user_by_id i db \<noteq> None"
    by (auto simp: user_by_id_def find_None_set)
  then show ?thesis by auto
qed



section \<open>Serialising the posts table\<close>



lemma PostResponse_of_row:
  "p_user_id p \<in> set (map u_id (users db)) \<Longrightarrow>
   \<exists>r. PostResponse_of db p = Inr r \<and> response_of_row db r p"
proof -
  assume "p_user_id p \<in> set (map u_id (users db))"
  from PostResponse_of_valid [OF this] obtain u where
    u: "u \<in> set (users db)" "u_id u = p_user_id p" and
    r: "PostResponse_of db p = Inr \<lparr>pr_id = p_id p, pr_title = p_title p,
          pr_content = p_content p, pr_user = UserResponse_of u\<rparr>"
    by blast
  from u have "UserResponse_of u
      \<in> set (map UserResponse_of (filter (\<lambda>u. u_id u = p_user_id p) (users db)))"
    by simp
  with u r show ?thesis
    by (simp add: response_of_row_def UserResponse_of_def)
qed

lemma PostResponse_list_rows:
  "list_all (\<lambda>p. p_user_id p \<in> set (map u_id (users db))) ps \<Longrightarrow>
   \<exists>rs. PostResponse_list db ps = Inr rs \<and> list_all2 (response_of_row db) rs ps"
proof (induction ps)
  case Nil
  then show ?case by simp
next
  case (Cons p ps)
  then have "p_user_id p \<in> set (map u_id (users db))"
    and "list_all (\<lambda>p. p_user_id p \<in> set (map u_id (users db))) ps"
    by simp_all
  with Cons.IH PostResponse_of_row [of p db] obtain r rs where
    "PostResponse_of db p = Inr r" "response_of_row db r p"
    "PostResponse_list db ps = Inr rs" "list_all2 (response_of_row db) rs ps"
    by blast
  then show ?case by simp
qed

lemma rows_owner:
  "list_all2 (response_of_row db) rs ps \<Longrightarrow> map (\<lambda>r. ur_id (pr_user r)) rs = map p_user_id ps"
  by (induction rule: list_all2_induct) (simp_all add: response_of_row_def)


lemma list_all_subset: "list_all P xs \<Longrightarrow> set ys \<subseteq> set xs \<Longrightarrow> list_all P ys"
  unfolding list_all_iff by blast

text \<open>
  In a database that meets the constraints \<open>get_posts\<close> succeeds: it returns the responses
  of the rows its scan meets, and the scan meets every post once.
\<close>

lemma get_posts_valid:
  assumes "valid_db db" and "valid_scan db"
  shows "\<exists>rs. get_posts db = (Inr rs, db) \<and>
              list_all2 (response_of_row db) rs (scan_rows p_id (posts db) (posts_scan db)) \<and>
              set (scan_rows p_id (posts db) (posts_scan db)) = set (posts db) \<and>
              map p_id (scan_rows p_id (posts db) (posts_scan db)) = posts_scan db \<and>
              length rs = length (posts db)"
proof -
  from assms have d: "distinct (map p_id (posts db))" and s: "distinct (posts_scan db)"
    and e: "set (posts_scan db) = set (map p_id (posts db))"
    by (simp_all add: valid_db_distinct valid_scan_def)
  have set: "set (scan_rows p_id (posts db) (posts_scan db)) = set (posts db)"
    by (rule scan_rows_set [OF d e])
  have keys: "map p_id (scan_rows p_id (posts db) (posts_scan db)) = posts_scan db"
    using e by (intro scan_rows_keys [OF d]) simp
  have len: "length (scan_rows p_id (posts db) (posts_scan db)) = length (posts db)"
    by (rule scan_rows_length [OF d s e])
  from assms(1) have "list_all (\<lambda>p. p_user_id p \<in> set (map u_id (users db))) (posts db)"
    by (simp add: valid_db_def)
  then have "list_all (\<lambda>p. p_user_id p \<in> set (map u_id (users db)))
               (scan_rows p_id (posts db) (posts_scan db))"
    by (rule list_all_subset) (simp only: set order_refl)
  from PostResponse_list_rows [OF this] obtain rs where
    rs: "PostResponse_list db (scan_rows p_id (posts db) (posts_scan db)) = Inr rs"
    and rows: "list_all2 (response_of_row db) rs (scan_rows p_id (posts db) (posts_scan db))"
    by blast
  from rows len have "length rs = length (posts db)"
    by (simp add: list_all2_lengthD)
  with rs rows set keys show ?thesis
    by (simp add: get_posts_def)
qed

lemma delete_user_Some:
  "delete_user user_id db = (Inr m, db') \<Longrightarrow>
   posts db' = filter (\<lambda>p. p_user_id p \<noteq> user_id) (posts db) \<and>
   users db' = filter (\<lambda>u. u_id u \<noteq> user_id) (users db)"
proof -
  assume a: "delete_user user_id db = (Inr m, db')"
  then obtain u where u: "user_by_id user_id db = Some u"
    by (auto simp: delete_user_def split: option.splits)
  from user_by_id_Some [OF u] have "u_id u = user_id" by simp
  with a u show ?thesis
    by (auto simp: delete_user_def)
qed



section \<open>Claims\<close>

text \<open>
  C1. In every reachable database each post names an existing user. When \<open>delete_user\<close>
  succeeds, the database it leaves is reachable again, its posts are the former posts
  without those of the deleted user, and \<open>get_posts\<close> on it returns one response per
  remaining post, none of them with the deleted user as its user.
\<close>

theorem no_orphaned_posts:
  assumes "reachable db"
  shows "(\<forall>p\<in>set (posts db). \<exists>u\<in>set (users db). u_id u = p_user_id p) \<and>
         (delete_user user_id db = (Inr m, db') \<longrightarrow>
            reachable db' \<and>
            posts db' = filter (\<lambda>p. p_user_id p \<noteq> user_id) (posts db) \<and>
            (\<exists>rs. get_posts db' = (Inr rs, db') \<and> length rs = length (posts db') \<and>
                  (\<forall>r\<in>set rs. ur_id (pr_user r) \<noteq> user_id)))"
proof (intro conjI impI)
  have "list_all (\<lambda>p. p_user_id p \<in> set (map u_id (users db))) (posts db)"
    using reachable_valid_db [OF assms] by (simp add: valid_db_def)
  then show "\<forall>p\<in>set (posts db). \<exists>u\<in>set (users db). u_id u = p_user_id p"
    unfolding list_all_iff by (simp add: image_iff) metis
next
  assume a: "delete_user user_id db = (Inr m, db')"
  from r_delete_user [OF assms, of user_id] a show r: "reachable db'"
    by simp
  from delete_user_Some [OF a] show ps: "posts db' = filter (\<lambda>p. p_user_id p \<noteq> user_id) (posts db)"
    by simp
  from get_posts_valid [OF reachable_valid_db [OF r] reachable_valid_scan [OF r]] obtain rs where
    g: "get_posts db' = (Inr rs, db')" and
    rows: "list_all2 (response_of_row db') rs (scan_rows p_id (posts db') (posts_scan db'))" and
    met: "set (scan_rows p_id (posts db') (posts_scan db')) = set (posts db')" and
    len: "length rs = length (posts db')"
    by blast
  have "set (map (\<lambda>r. ur_id (pr_user r)) rs)
          = set (map p_user_id (scan_rows p_id (posts db') (posts_scan db')))"
    by (simp only: rows_owner [OF rows])
  also have "\<dots> = p_user_id ` set (posts db')"
    by (simp only: set_map met)
  finally have "(\<lambda>r. ur_id (pr_user r)) ` set rs = p_user_id ` set (posts db')"
    by simp
  then have "user_id \<notin> (\<lambda>r. ur_id (pr_user r)) ` set rs"
    unfolding ps by auto
  then have gone: "\<forall>r\<in>set rs. ur_id (pr_user r) \<noteq> user_id"
    by blast
  from g len gone show "\<exists>rs. get_posts db' = (Inr rs, db') \<and> length rs = length (posts db') \<and>
                  (\<forall>r\<in>set rs. ur_id (pr_user r) \<noteq> user_id)"
    by blast
qed

theorem no_orphaned_posts_witness:
  "reachable db_alice_post \<and>
   (\<exists>u\<in>set (users db_alice_post). u_id u = p_user_id (posts db_alice_post ! 0)) \<and>
   delete_user 1 db_alice_post =
     (Inr ''User deleted'', \<lparr>users = [], posts = [], users_id_seq = 2, posts_id_seq = 2,
                              users_scan = [], posts_scan = []\<rparr>) \<and>
   reachable \<lparr>users = [], posts = [], users_id_seq = 2, posts_id_seq = 2,
              users_scan = [], posts_scan = []\<rparr> \<and>
   get_posts \<lparr>users = [], posts = [], users_id_seq = 2, posts_id_seq = 2,
              users_scan = [], posts_scan = []\<rparr> =
     (Inr [], \<lparr>users = [], posts = [], users_id_seq = 2, posts_id_seq = 2,
               users_scan = [], posts_scan = []\<rparr>)"
proof -
  let ?db' = "\<lparr>users = [], posts = [], users_id_seq = 2, posts_id_seq = 2,
               users_scan = [], posts_scan = []\<rparr>"
  have d: "delete_user 1 db_alice_post = (Inr ''User deleted'', ?db')"
    by (simp add: db_alice_post_eq delete_user_def user_by_id_def)
  have m: "posts db_alice_post ! 0 \<in> set (posts db_alice_post)"
    by (simp add: db_alice_post_eq)
  note t = no_orphaned_posts [OF reachable_db_alice_post, of 1 "''User deleted''" ?db']
  from t m have o: "\<exists>u\<in>set (users db_alice_post). u_id u = p_user_id (posts db_alice_post ! 0)"
    by blast
  from t d have r: "reachable ?db'"
    by blast
  have g: "get_posts ?db' = (Inr [], ?db')"
    by (simp add: get_posts_def scan_rows_Nil)
  from reachable_db_alice_post o d r g show ?thesis
    by (intro conjI)
qed

text \<open>
  C2 (the code departs from the claim). The claim: \<open>changeUserEmail\<close> signals Conflict only
  when the new email is used by a different user, and setting a user's email to a value no
  other user has succeeds. The handler's own comment says the check is for an email taken
  by another user, but its query \<open>filter(User.email == email)\<close> does not leave out the
  user being changed. So after \<open>alice\<close> is created with \<open>a@x.com\<close>, changing that user's
  email to \<open>a@x.com\<close>, which no other user has, ends in status 400 and the database is as
  before.
\<close>

theorem change_user_email_own_email_conflict:
  "change_user_email 1 ''a@x.com''
     (snd (create_user \<lparr>uc_username = ''alice'', uc_email = ''a@x.com'', uc_password = ''pw1''\<rparr> init_db))
   = (Inl (HTTPException 400 ''Email is already taken''),
      \<lparr>users = [\<lparr>u_id = 1, u_username = ''alice'', u_email = ''a@x.com'', u_password = ''pw1''\<rparr>],
       posts = [], users_id_seq = 2, posts_id_seq = 1, users_scan = [1], posts_scan = []\<rparr>)"
  by (simp add: change_user_email_def create_user_def init_db_def user_by_id_def Let_def
      has_NUL_def)

text \<open>
  C3 (corrected). The claim fails where the given username or email has a NUL character:
  the uniqueness query cannot be sent, and the request ends in status 500, not in Conflict.
  What holds: whenever the table holds a user with the given username and another email,
  or with the given email and another username, \<open>create_user\<close> returns the database it was
  given, so no row is inserted and no key is drawn; it ends in status 400 (Conflict) when
  neither the username nor the email has a NUL character, and in status 500 otherwise.
\<close>

theorem create_user_duplicate_conflict:
  assumes "\<exists>u\<in>set (users db).
             (u_username u = uc_username user \<and> u_email u \<noteq> uc_email user) \<or>
             (u_email u = uc_email user \<and> u_username u \<noteq> uc_username user)"
  shows "snd (create_user user db) = db \<and>
         (\<not> has_NUL (uc_username user) \<and> \<not> has_NUL (uc_email user) \<longrightarrow>
            create_user user db =
              (Inl (HTTPException 400 ''User with this username or email already exists''), db)) \<and>
         (has_NUL (uc_username user) \<or> has_NUL (uc_email user) \<longrightarrow>
            create_user user db = (Inl InternalServerError, db))"
proof -
  have "find (\<lambda>u. u_username u = uc_username user \<or> u_email u = uc_email user) (users db) \<noteq> None"
    using assms by (auto simp: find_None_set)
  then obtain u where
    "find (\<lambda>u. u_username u = uc_username user \<or> u_email u = uc_email user) (users db) = Some u"
    by auto
  then show ?thesis
    by (simp add: create_user_def)
qed

theorem create_user_duplicate_conflict_witness:
  "(\<exists>u\<in>set (users db_alice).
      (u_username u = ''alice'' \<and> u_email u \<noteq> ''b@x.com'') \<or>
      (u_email u = ''b@x.com'' \<and> u_username u \<noteq> ''alice'')) \<and>
   create_user \<lparr>uc_username = ''alice'', uc_email = ''b@x.com'', uc_password = ''pw2''\<rparr> db_alice =
     (Inl (HTTPException 400 ''User with this username or email already exists''), db_alice)"
  using create_user_duplicate_conflict
    [of db_alice "\<lparr>uc_username = ''alice'', uc_email = ''b@x.com'', uc_password = ''pw2''\<rparr>"]
  by (simp add: db_alice_eq has_NUL_def)

theorem create_user_duplicate_NUL_counterexample:
  "users db_alice = [\<lparr>u_id = 1, u_username = ''alice'', u_email = ''a@x.com'', u_password = ''pw1''\<rparr>] \<and>
   create_user \<lparr>uc_username = ''alice'', uc_email = [CHR 0x00], uc_password = ''pw2''\<rparr> db_alice =
     (Inl InternalServerError, db_alice)"
  by (simp add: db_alice_eq create_user_def has_NUL_def)




text \<open>
  C5 (corrected). The claim fails where the title or the content has a NUL character: the
  \<open>INSERT\<close> cannot be sent and \<open>create_post\<close> ends in status 500 although the user exists.
  What holds: when no user has the identifier \<open>user_id\<close> of the request, \<open>create_post\<close> ends
  in status 404 (NotFound) and returns the database it was given. When a user has it and
  neither the title nor the content has a NUL character, \<open>create_post\<close> appends the post
  under the next key and returns it with that user as its nested \<open>user\<close>; with a NUL
  character it ends in status 500 and returns the database it was given.
\<close>

theorem create_post_owner_check:
  "((\<forall>u\<in>set (users db). u_id u \<noteq> pc_user_id post) \<longrightarrow>
      create_post post db = (Inl (HTTPException 404 ''User not found''), db)) \<and>
   ((\<exists>u\<in>set (users db). u_id u = pc_user_id post) \<and>
    \<not> has_NUL (pc_title post) \<and> \<not> has_NUL (pc_content post) \<longrightarrow>
      (\<exists>u\<in>set (users db). u_id u = pc_user_id post \<and>
         create_post post db =
           (Inr \<lparr>pr_id = posts_id_seq db, pr_title = pc_title post, pr_content = pc_content post,
                 pr_user = UserResponse_of u\<rparr>,
            db\<lparr>posts := posts db @ [\<lparr>p_id = posts_id_seq db, p_title = pc_title post,
                                       p_content = pc_content post, p_user_id = pc_user_id post\<rparr>],
               posts_id_seq := posts_id_seq db + 1,
               posts_scan := posts_scan db @ [posts_id_seq db]\<rparr>))) \<and>
   ((\<exists>u\<in>set (users db). u_id u = pc_user_id post) \<and>
    (has_NUL (pc_title post) \<or> has_NUL (pc_content post)) \<longrightarrow>
      create_post post db = (Inl InternalServerError, db))"
proof (intro conjI impI)
  assume "\<forall>u\<in>set (users db). u_id u \<noteq> pc_user_id post"
  then have "user_by_id (pc_user_id post) db = None"
    by (simp add: user_by_id_def find_None_set)
  then show "create_post post db = (Inl (HTTPException 404 ''User not found''), db)"
    by (simp add: create_post_def)
next
  assume h: "(\<exists>u\<in>set (users db). u_id u = pc_user_id post) \<and>
    \<not> has_NUL (pc_title post) \<and> \<not> has_NUL (pc_content post)"
  then have "\<exists>u\<in>set (users db). u_id u = pc_user_id post" by simp
  from user_by_id_exists [OF this] obtain u where u: "user_by_id (pc_user_id post) db = Some u"
    by auto
  note um = user_by_id_Some [OF u]
  have "create_post post db =
           (Inr \<lparr>pr_id = posts_id_seq db, pr_title = pc_title post, pr_content = pc_content post,
                 pr_user = UserResponse_of u\<rparr>,
            db\<lparr>posts := posts db @ [\<lparr>p_id = posts_id_seq db, p_title = pc_title post,
                                       p_content = pc_content post, p_user_id = pc_user_id post\<rparr>],
               posts_id_seq := posts_id_seq db + 1,
               posts_scan := posts_scan db @ [posts_id_seq db]\<rparr>)"
    using h by (intro create_post_new [OF u]) simp_all
  with um show "\<exists>u\<in>set (users db). u_id u = pc_user_id post \<and>
         create_post post db =
           (Inr \<lparr>pr_id = posts_id_seq db, pr_title = pc_title post, pr_content = pc_content post,
                 pr_user = UserResponse_of u\<rparr>,
            db\<lparr>posts := posts db @ [\<lparr>p_id = posts_id_seq db, p_title = pc_title post,
                                       p_content = pc_content post, p_user_id = pc_user_id post\<rparr>],
               posts_id_seq := posts_id_seq db + 1,
               posts_scan := posts_scan db @ [posts_id_seq db]\<rparr>)"
    by blast
next
  assume h: "(\<exists>u\<in>set (users db). u_id u = pc_user_id post) \<and>
    (has_NUL (pc_title post) \<or> has_NUL (pc_content post))"
  then have "\<exists>u\<in>set (users db). u_id u = pc_user_id post" by simp
  from user_by_id_exists [OF this] obtain u where u: "user_by_id (pc_user_id post) db = Some u"
    by auto
  with h show "create_post post db = (Inl InternalServerError, db)"
    by (simp add: create_post_def)
qed

theorem create_post_owner_check_witness:
  "create_post first_post init_db = (Inl (HTTPException 404 ''User not found''), init_db) \<and>
   (\<exists>u\<in>set (users db_alice). u_id u = 1 \<and>
     create_post first_post db_alice =
       (Inr \<lparr>pr_id = 1, pr_title = ''T'', pr_content = ''C'', pr_user = UserResponse_of u\<rparr>,
        db_alice_post)) \<and>
   create_post \<lparr>pc_title = ''T'', pc_content = [CHR 0x00], pc_user_id = 1\<rparr> db_alice =
     (Inl InternalServerError, db_alice)"
  using create_post_owner_check [of init_db first_post]
        create_post_owner_check [of db_alice first_post]
        create_post_owner_check
          [of db_alice "\<lparr>pc_title = ''T'', pc_content = [CHR 0x00], pc_user_id = 1\<rparr>"]
  by (simp add: db_alice_post_eq) (simp add: db_alice_eq init_db_def first_post_def has_NUL_def)

theorem create_post_NUL_title_counterexample:
  "users db_alice = [\<lparr>u_id = 1, u_username = ''alice'', u_email = ''a@x.com'', u_password = ''pw1''\<rparr>] \<and>
   create_post \<lparr>pc_title = [CHR 0x00], pc_content = ''C'', pc_user_id = 1\<rparr> db_alice =
     (Inl InternalServerError, db_alice)"
  by (simp add: db_alice_eq create_post_def user_by_id_def has_NUL_def)

text \<open>
  C6. A user is returned as identifier, username and email, whatever the password is. For
  two databases that differ only in stored passwords, \<open>get_user\<close>, \<open>get_users\<close>, \<open>get_post\<close>
  and \<open>get_posts\<close> return the same.
\<close>

theorem responses_independent_of_passwords:
  assumes "same_up_to_passwords db db'"
  shows "UserResponse_of (u\<lparr>u_password := pw\<rparr>) = UserResponse_of u \<and>
         UserResponse_of u = \<lparr>ur_id = u_id u, ur_username = u_username u, ur_email = u_email u\<rparr> \<and>
         fst (get_user user_id db) = fst (get_user user_id db') \<and>
         fst (get_users db) = fst (get_users db') \<and>
         fst (get_post post_id db) = fst (get_post post_id db') \<and>
         fst (get_posts db) = fst (get_posts db')"
proof (intro conjI)
  show "UserResponse_of (u\<lparr>u_password := pw\<rparr>) = UserResponse_of u"
    by (simp add: UserResponse_of_def)
  show "UserResponse_of u = \<lparr>ur_id = u_id u, ur_username = u_username u, ur_email = u_email u\<rparr>"
    by (simp add: UserResponse_of_def)
  show "fst (get_user user_id db) = fst (get_user user_id db')"
    by (simp only: get_user_by_response user_by_id_erased [OF assms])
  have "users_scan db = users_scan db'"
    using assms by (simp add: same_up_to_passwords_def)
  moreover have "map UserResponse_of (scan_rows u_id (users db) (users_scan db'))
                   = map UserResponse_of (scan_rows u_id (users db') (users_scan db'))"
    using assms by (intro scan_erased) (simp add: same_up_to_passwords_def)
  ultimately show "fst (get_users db) = fst (get_users db')"
    by (simp add: get_users_def)
  have same: "posts db = posts db'" "posts_scan db = posts_scan db'"
    using assms by (simp_all add: same_up_to_passwords_def)
  then have "post_by_id post_id db = post_by_id post_id db'"
    by (simp add: post_by_id_def)
  then show "fst (get_post post_id db) = fst (get_post post_id db')"
    by (simp add: get_post_def PostResponse_of_erased [OF assms] split: option.splits)
  show "fst (get_posts db) = fst (get_posts db')"
    using same by (simp add: get_posts_def PostResponse_list_erased [OF assms])
qed

theorem responses_independent_of_passwords_witness:
  "same_up_to_passwords db_alice_post
     (db_alice_post\<lparr>users := [\<lparr>u_id = 1, u_username = ''alice'', u_email = ''a@x.com'',
                                 u_password = ''another''\<rparr>]\<rparr>) \<and>
   fst (get_user 1 (db_alice_post\<lparr>users := [\<lparr>u_id = 1, u_username = ''alice'',
                                   u_email = ''a@x.com'', u_password = ''another''\<rparr>]\<rparr>))
     = Inr \<lparr>ur_id = 1, ur_username = ''alice'', ur_email = ''a@x.com''\<rparr> \<and>
   fst (get_posts (db_alice_post\<lparr>users := [\<lparr>u_id = 1, u_username = ''alice'',
                                   u_email = ''a@x.com'', u_password = ''another''\<rparr>]\<rparr>))
     = Inr [\<lparr>pr_id = 1, pr_title = ''T'', pr_content = ''C'',
             pr_user = \<lparr>ur_id = 1, ur_username = ''alice'', ur_email = ''a@x.com''\<rparr>\<rparr>]"
proof -
  let ?db' = "db_alice_post\<lparr>users := [\<lparr>u_id = 1, u_username = ''alice'', u_email = ''a@x.com'',
                                 u_password = ''another''\<rparr>]\<rparr>"
  have h: "same_up_to_passwords db_alice_post ?db'"
    by (simp add: same_up_to_passwords_def db_alice_post_eq)
  have e1: "fst (get_user 1 db_alice_post)
              = Inr \<lparr>ur_id = 1, ur_username = ''alice'', ur_email = ''a@x.com''\<rparr>"
    by (simp add: db_alice_post_eq get_user_def user_by_id_def UserResponse_of_def)
  have e2: "fst (get_posts db_alice_post)
              = Inr [\<lparr>pr_id = 1, pr_title = ''T'', pr_content = ''C'',
                      pr_user = \<lparr>ur_id = 1, ur_username = ''alice'', ur_email = ''a@x.com''\<rparr>\<rparr>]"
    by (simp add: db_alice_post_eq get_posts_def scan_rows_Cons scan_rows_Nil PostResponse_of_def
        user_by_id_def UserResponse_of_def)
  from responses_independent_of_passwords [OF h, of _ _ 1] e1 e2 h show ?thesis
    by simp
qed

text \<open>
  C7. For a post identifier that is in the table and every content string, a second
  \<open>update_post_content\<close> with the same string returns what the first returned and leaves
  the database the first left. When the string has no NUL character, every post with
  that identifier then has the string as its content, and in a database that meets the
  constraints what is returned is the post, with that content.
\<close>

theorem update_post_content_idempotent:
  assumes "\<exists>p\<in>set (posts db). p_id p = post_id"
  shows "update_post_content post_id content (snd (update_post_content post_id content db))
           = update_post_content post_id content db \<and>
         (\<not> has_NUL content \<longrightarrow>
            (\<forall>p\<in>set (posts (snd (update_post_content post_id content db))).
               p_id p = post_id \<longrightarrow> p_content p = content) \<and>
            (valid_db db \<longrightarrow>
               (\<exists>r. fst (update_post_content post_id content db) = Inr r \<and> pr_id r = post_id \<and>
                    pr_content r = content)))"
proof -
  from assms have "post_by_id post_id db \<noteq> None"
    by (auto simp: post_by_id_def find_None_set)
  then obtain p where p: "post_by_id post_id db = Some p" by auto
  note pm = post_by_id_Some [OF p]
  let ?upd = "\<lambda>q. if p_id q = post_id then q\<lparr>p_content := content\<rparr> else q"
  let ?db1 = "db\<lparr>posts := map ?upd (posts db)\<rparr>"
  let ?db2 = "?db1\<lparr>posts_scan := filter (\<lambda>i. i \<noteq> post_id) (posts_scan db) @ [post_id]\<rparr>"
  let ?R = "PostResponse_of db (p\<lparr>p_content := content\<rparr>)"
  have found: "update_post_content post_id content d =
                 (PostResponse_of d (q\<lparr>p_content := content\<rparr>), d\<lparr>posts := map ?upd (posts d)\<rparr>)"
    if "post_by_id post_id d = Some q" and "p_content q = content" for d q
    using that post_by_id_Some [OF that(1)]
    by (simp add: update_post_content_def Let_def PostResponse_of_posts)
  have again: "update_post_content post_id content d = (?R, d)"
    if "posts d = map ?upd (posts db)" and "users d = users db" for d
  proof -
    have "post_by_id post_id d = Some (p\<lparr>p_content := content\<rparr>)"
      using p by (simp add: post_by_id_def that(1) find_after_update)
    from found [OF this] have "update_post_content post_id content d =
        (PostResponse_of d (p\<lparr>p_content := content\<rparr>), d\<lparr>posts := map ?upd (posts d)\<rparr>)"
      by simp
    moreover have "d\<lparr>posts := map ?upd (posts d)\<rparr> = d"
      by (simp add: that(1) set_content_twice del: map_map)
    moreover have "PostResponse_of d (p\<lparr>p_content := content\<rparr>) = ?R"
      by (rule PostResponse_of_users [OF that(2)])
    ultimately show ?thesis by simp
  qed
  have stored: "\<forall>q\<in>set (map ?upd (posts db)). p_id q = post_id \<longrightarrow> p_content q = content"
    using content_after_update [unfolded list_all_iff, of post_id content "posts db"] .
  have ok: "\<exists>r. ?R = Inr r \<and> pr_id r = post_id \<and> pr_content r = content" if "valid_db db"
  proof -
    from that pm have "p_user_id (p\<lparr>p_content := content\<rparr>) \<in> set (map u_id (users db))"
      by (simp add: valid_db_iff)
    from PostResponse_of_valid [OF this] pm show ?thesis by auto
  qed
  consider (same) "p_content p = content"
    | (refused) "p_content p \<noteq> content" "has_NUL content"
    | (written) "p_content p \<noteq> content" "\<not> has_NUL content"
    by blast
  then show ?thesis
  proof cases
    case same
    with p pm have once: "update_post_content post_id content db = (?R, ?db1)"
      by (simp add: update_post_content_def Let_def PostResponse_of_posts)
    have twice: "update_post_content post_id content ?db1 = (?R, ?db1)"
      by (rule again) simp_all
    show ?thesis
      unfolding once snd_conv fst_conv
    proof (intro conjI impI)
      show "update_post_content post_id content ?db1 = (?R, ?db1)" by (rule twice)
      have "posts ?db1 = map ?upd (posts db)" by simp
      then show "\<forall>q\<in>set (posts ?db1). p_id q = post_id \<longrightarrow> p_content q = content"
        using stored by (simp only:)
      assume "valid_db db"
      then show "\<exists>r. ?R = Inr r \<and> pr_id r = post_id \<and> pr_content r = content" by (rule ok)
    qed
  next
    case refused
    with p have once: "update_post_content post_id content db = (Inl InternalServerError, db)"
      by (simp add: update_post_content_def Let_def)
    show ?thesis
      unfolding once snd_conv fst_conv using once refused by simp
  next
    case written
    with p pm have once: "update_post_content post_id content db = (?R, ?db2)"
      by (simp add: update_post_content_def Let_def PostResponse_of_posts)
    have twice: "update_post_content post_id content ?db2 = (?R, ?db2)"
      by (rule again) simp_all
    show ?thesis
      unfolding once snd_conv fst_conv
    proof (intro conjI impI)
      show "update_post_content post_id content ?db2 = (?R, ?db2)" by (rule twice)
      have "posts ?db2 = map ?upd (posts db)" by simp
      then show "\<forall>q\<in>set (posts ?db2). p_id q = post_id \<longrightarrow> p_content q = content"
        using stored by (simp only:)
      assume "valid_db db"
      then show "\<exists>r. ?R = Inr r \<and> pr_id r = post_id \<and> pr_content r = content" by (rule ok)
    qed
  qed
qed

theorem update_post_content_idempotent_witness:
  "(\<exists>p\<in>set (posts db_two_posts). p_id p = 1) \<and> valid_db db_two_posts \<and>
   update_post_content 1 ''new'' db_two_posts =
     (Inr \<lparr>pr_id = 1, pr_title = ''T'', pr_content = ''new'',
            pr_user = \<lparr>ur_id = 1, ur_username = ''alice'', ur_email = ''a@x.com''\<rparr>\<rparr>,
      db_content_changed) \<and>
   update_post_content 1 ''new'' db_content_changed =
     (Inr \<lparr>pr_id = 1, pr_title = ''T'', pr_content = ''new'',
            pr_user = \<lparr>ur_id = 1, ur_username = ''alice'', ur_email = ''a@x.com''\<rparr>\<rparr>,
      db_content_changed) \<and>
   update_post_content 1 [CHR 0x00] db_two_posts = (Inl InternalServerError, db_two_posts)"
proof -
  have h: "\<exists>p\<in>set (posts db_two_posts). p_id p = 1"
    by (simp add: db_two_posts_eq)
  have v: "valid_db db_two_posts"
    by (rule reachable_valid_db [OF reachable_db_two_posts])
  have e: "update_post_content 1 ''new'' db_two_posts =
     (Inr \<lparr>pr_id = 1, pr_title = ''T'', pr_content = ''new'',
            pr_user = \<lparr>ur_id = 1, ur_username = ''alice'', ur_email = ''a@x.com''\<rparr>\<rparr>,
      db_content_changed)"
    by (simp add: db_content_changed_eq)
       (simp add: db_two_posts_eq update_post_content_def post_by_id_def Let_def
          PostResponse_of_def user_by_id_def UserResponse_of_def has_NUL_def)
  have n: "update_post_content 1 [CHR 0x00] db_two_posts = (Inl InternalServerError, db_two_posts)"
    by (simp add: db_two_posts_eq update_post_content_def post_by_id_def Let_def has_NUL_def)
  from update_post_content_idempotent [OF h, of "''new''"] e
  have "update_post_content 1 ''new'' db_content_changed =
     (Inr \<lparr>pr_id = 1, pr_title = ''T'', pr_content = ''new'',
            pr_user = \<lparr>ur_id = 1, ur_username = ''alice'', ur_email = ''a@x.com''\<rparr>\<rparr>,
      db_content_changed)"
    by simp
  with h v e n show ?thesis
    by (intro conjI)
qed




text \<open>
  C9. A successful \<open>change_user_email\<close> leaves the posts and both sequences as they were
  and keeps every user row in its place: the rows with the given identifier have the new
  email and nothing else changed, every other row is as before. A successful
  \<open>update_post_content\<close> does the same to the posts, changing the content only, and leaves
  the users as they were.
\<close>

theorem updates_change_one_field:
  "(change_user_email user_id email db = (Inr r, db') \<longrightarrow>
      posts db' = posts db \<and> users_id_seq db' = users_id_seq db \<and>
      posts_id_seq db' = posts_id_seq db \<and> length (users db') = length (users db) \<and>
      (\<forall>k<length (users db).
         users db' ! k = (if u_id (users db ! k) = user_id
                          then (users db ! k)\<lparr>u_email := email\<rparr> else users db ! k))) \<and>
   (update_post_content post_id content db = (Inr pr, db'') \<longrightarrow>
      users db'' = users db \<and> users_id_seq db'' = users_id_seq db \<and>
      posts_id_seq db'' = posts_id_seq db \<and> length (posts db'') = length (posts db) \<and>
      (\<forall>k<length (posts db).
         posts db'' ! k = (if p_id (posts db ! k) = post_id
                           then (posts db ! k)\<lparr>p_content := content\<rparr> else posts db ! k)))"
proof (intro conjI impI)
  assume a: "change_user_email user_id email db = (Inr r, db')"
  then obtain u where u: "user_by_id user_id db = Some u"
    by (auto simp: change_user_email_def split: option.splits)
  note um = user_by_id_Some [OF u]
  from a u um have db': "db' = db\<lparr>users := map (\<lambda>v. if u_id v = user_id then v\<lparr>u_email := email\<rparr> else v)
                                 (users db),
                               users_scan := filter (\<lambda>i. i \<noteq> user_id) (users_scan db) @ [user_id]\<rparr>"
    by (simp add: change_user_email_def split: if_splits option.splits)
  show "posts db' = posts db" "users_id_seq db' = users_id_seq db"
       "posts_id_seq db' = posts_id_seq db" "length (users db') = length (users db)"
       "\<forall>k<length (users db).
         users db' ! k = (if u_id (users db ! k) = user_id
                          then (users db ! k)\<lparr>u_email := email\<rparr> else users db ! k)"
    by (simp_all add: db')
next
  assume a: "update_post_content post_id content db = (Inr pr, db'')"
  then obtain p where p: "post_by_id post_id db = Some p"
    by (auto simp: update_post_content_def split: option.splits)
  note pm = post_by_id_Some [OF p]
  from a p pm have db'': "users db'' = users db \<and> users_id_seq db'' = users_id_seq db \<and>
      posts_id_seq db'' = posts_id_seq db \<and>
      posts db'' = map (\<lambda>q. if p_id q = post_id then q\<lparr>p_content := content\<rparr> else q) (posts db)"
    by (auto simp: update_post_content_def Let_def split: if_splits)
  show "users db'' = users db" "users_id_seq db'' = users_id_seq db"
       "posts_id_seq db'' = posts_id_seq db" "length (posts db'') = length (posts db)"
       "\<forall>k<length (posts db).
         posts db'' ! k = (if p_id (posts db ! k) = post_id
                           then (posts db ! k)\<lparr>p_content := content\<rparr> else posts db ! k)"
    by (simp_all add: db'')
qed

theorem updates_change_one_field_witness:
  "change_user_email 1 ''b@x.com'' db_alice_post =
     (Inr \<lparr>ur_id = 1, ur_username = ''alice'', ur_email = ''b@x.com''\<rparr>,
      db_alice_post\<lparr>users := [\<lparr>u_id = 1, u_username = ''alice'', u_email = ''b@x.com'',
                                  u_password = ''pw1''\<rparr>]\<rparr>) \<and>
   update_post_content 1 ''new'' db_alice_post =
     (Inr \<lparr>pr_id = 1, pr_title = ''T'', pr_content = ''new'',
            pr_user = \<lparr>ur_id = 1, ur_username = ''alice'', ur_email = ''a@x.com''\<rparr>\<rparr>,
      db_alice_post\<lparr>posts := [\<lparr>p_id = 1, p_title = ''T'', p_content = ''new'',
                                  p_user_id = 1\<rparr>]\<rparr>) \<and>
   posts (snd (change_user_email 1 ''b@x.com'' db_alice_post)) = posts db_alice_post \<and>
   users (snd (change_user_email 1 ''b@x.com'' db_alice_post)) ! 0
     = (users db_alice_post ! 0)\<lparr>u_email := ''b@x.com''\<rparr> \<and>
   users (snd (update_post_content 1 ''new'' db_alice_post)) = users db_alice_post \<and>
   posts (snd (update_post_content 1 ''new'' db_alice_post)) ! 0
     = (posts db_alice_post ! 0)\<lparr>p_content := ''new''\<rparr>"
proof -
  let ?r = "\<lparr>ur_id = 1, ur_username = ''alice'', ur_email = ''b@x.com''\<rparr>"
  let ?d1 = "db_alice_post\<lparr>users := [\<lparr>u_id = 1, u_username = ''alice'', u_email = ''b@x.com'',
                                  u_password = ''pw1''\<rparr>]\<rparr>"
  let ?pr = "\<lparr>pr_id = 1, pr_title = ''T'', pr_content = ''new'',
            pr_user = \<lparr>ur_id = 1, ur_username = ''alice'', ur_email = ''a@x.com''\<rparr>\<rparr>"
  let ?d2 = "db_alice_post\<lparr>posts := [\<lparr>p_id = 1, p_title = ''T'', p_content = ''new'',
                                  p_user_id = 1\<rparr>]\<rparr>"
  have e1: "change_user_email 1 ''b@x.com'' db_alice_post = (Inr ?r, ?d1)"
    by (simp add: db_alice_post_eq change_user_email_def user_by_id_def UserResponse_of_def
        has_NUL_def)
  have e2: "update_post_content 1 ''new'' db_alice_post = (Inr ?pr, ?d2)"
    by (simp add: db_alice_post_eq update_post_content_def post_by_id_def Let_def
        PostResponse_of_def user_by_id_def UserResponse_of_def has_NUL_def)
  have l: "(0::nat) < length (users db_alice_post)" "(0::nat) < length (posts db_alice_post)"
    by (simp_all add: db_alice_post_eq)
  from updates_change_one_field
         [of 1 "''b@x.com''" db_alice_post ?r ?d1 1 "''new''" ?pr ?d2] e1 e2 l
  have "posts ?d1 = posts db_alice_post \<and>
        users ?d1 ! 0 = (users db_alice_post ! 0)\<lparr>u_email := ''b@x.com''\<rparr> \<and>
        users ?d2 = users db_alice_post \<and>
        posts ?d2 ! 0 = (posts db_alice_post ! 0)\<lparr>p_content := ''new''\<rparr>"
    by (simp add: db_alice_post_eq)
  with e1 e2 show ?thesis
    by (simp only: snd_conv simp_thms)
qed




end
